theory Spec2Isabelle
  imports Main
begin

section \<open>Python values and exceptions\<close>

text \<open>
  The library \<^verbatim>\<open>ipm.e2e\<close> (file \<^verbatim>\<open>src/ipm/e2e.py\<close>) is embedded function by
  function. An exception that is raised is the left summand of a result type
  \<open>pyerror + 'a\<close>; an exception object that is \<^emph>\<open>returned\<close> as an ordinary value (the
  \<^verbatim>\<open>Either\<close> idiom of the library) is the value \<open>PExc\<close>.
  \<^verbatim>\<open>NameError\<close> is what the two \<^verbatim>\<open>TODO\<close> placeholders of \<^verbatim>\<open>_match\<close> raise when they are
  evaluated, \<^verbatim>\<open>TypeError\<close> what Python raises for a call or a comparison on a value of
  the wrong kind and for \<^verbatim>\<open>next\<close> on an object that is not an iterator.
\<close>

datatype pyerror =
    StopIteration
  | TypeError
  | NameError
  | IndexError
  | AssertionError string
  | NotFoundError string
  | RuntimeError string
  | AttributeError string

text \<open>
  The values an attribute of an accessible object can have: strings, byte strings,
  integers, \<^verbatim>\<open>None\<close>, an exception object, and a callable, which is given by what
  calling it with no argument does.
\<close>

datatype pyval =
    PStr string
  | PBytes "char list"
  | PInt int
  | PNone
  | PExc pyerror
  | PCallable "pyerror + pyval"

text \<open>\<^verbatim>\<open>is_error(x)\<close> is \<^verbatim>\<open>isinstance(x, Exception)\<close>.\<close>

fun is_error :: "pyval \<Rightarrow> bool" where
  "is_error (PExc e) = True"
| "is_error v = False"

text \<open>\<^verbatim>\<open>fail_on_error(x)\<close> raises \<^verbatim>\<open>x\<close> when it is an error and returns it otherwise.\<close>

fun fail_on_error :: "pyval \<Rightarrow> pyerror + pyval" where
  "fail_on_error (PExc e) = Inl e"
| "fail_on_error v = Inr v"

text \<open>Calling a value with no argument; a value that is not callable raises.\<close>

fun call0 :: "pyval \<Rightarrow> pyerror + pyval" where
  "call0 (PCallable r) = r"
| "call0 v = Inl TypeError"

section \<open>Accessible objects\<close>

text \<open>
  An \<^verbatim>\<open>Atspi.Object\<close> as the library reads it: \<^verbatim>\<open>get_role_name()\<close>, \<^verbatim>\<open>get_name()\<close>
  (a string or \<^verbatim>\<open>None\<close>), \<^verbatim>\<open>get_text(0, -1)\<close>, the attributes that \<^verbatim>\<open>hasattr\<close> and
  \<^verbatim>\<open>getattr\<close> see (name and value), the action names
  \<^verbatim>\<open>get_action_name(0) .. get_action_name(get_n_actions() - 1)\<close>, and the children
  \<^verbatim>\<open>get_child_at_index(0) .. get_child_at_index(get_child_count() - 1)\<close>. The calls
  of the accessibility service itself are taken to return. A value of this datatype
  is a finite tree without cycles.
\<close>

datatype node = Node
  (get_role_name: string)
  (get_name: "string option")
  (get_text: pyval)
  (py_attrs: "(string \<times> pyval) list")
  (action_names: "string list")
  (children: "node list")

definition hasattr :: "node \<Rightarrow> string \<Rightarrow> bool" where
  "hasattr obj name = (map_of (py_attrs obj) name \<noteq> None)"

definition getattr :: "node \<Rightarrow> string \<Rightarrow> pyerror + pyval" where
  "getattr obj name =
     (case map_of (py_attrs obj) name of
        None \<Rightarrow> Inl (AttributeError name)
      | Some v \<Rightarrow> Inr v)"

text \<open>\<^verbatim>\<open>obj.get_name() or ""\<close>: \<^verbatim>\<open>None\<close> and the empty string both give the empty string.\<close>

definition name_or_empty :: "node \<Rightarrow> string" where
  "name_or_empty obj = (case get_name obj of None \<Rightarrow> [] | Some s \<Rightarrow> s)"

text \<open>\<^verbatim>\<open>_pprint\<close>: the display form \<^verbatim>\<open>role('name')\<close>.\<close>

definition pprint :: "node \<Rightarrow> string" where
  "pprint obj = get_role_name obj @ ''('' @ [CHR 0x27] @ name_or_empty obj @ [CHR 0x27] @ '')''"

text \<open>
  \<^verbatim>\<open>_get_action_idx\<close>: the loop over \<^verbatim>\<open>range(obj.get_n_actions())\<close> returns the first
  index whose action name equals the name, \<^verbatim>\<open>None\<close> when the loop ends.
\<close>

fun get_action_idx_from :: "nat \<Rightarrow> string list \<Rightarrow> string \<Rightarrow> nat option" where
  "get_action_idx_from i [] name = None"
| "get_action_idx_from i (a # as) name =
     (if a = name then Some i else get_action_idx_from (Suc i) as name)"

definition get_action_idx :: "node \<Rightarrow> string \<Rightarrow> nat option" where
  "get_action_idx obj name = get_action_idx_from 0 (action_names obj) name"

definition get_actions_names :: "node \<Rightarrow> string list" where
  "get_actions_names obj = action_names obj"

section \<open>Attribute accessor\<close>

text \<open>
  \<^verbatim>\<open>obj_get_attr\<close>: the \<^verbatim>\<open>if/elif\<close> chain in the source's order. The last branch
  \<^emph>\<open>returns\<close> an \<^verbatim>\<open>AttributeError\<close> object.
\<close>

definition obj_get_attr :: "node \<Rightarrow> string \<Rightarrow> pyerror + pyval" where
  "obj_get_attr obj name =
     (if name = ''role'' then Inr (PStr (get_role_name obj))
      else if name = ''name'' then Inr (PStr (name_or_empty obj))
      else if name = ''text'' then Inr (get_text obj)
      else if hasattr obj name then getattr obj name
      else if hasattr obj (''get_'' @ name) then
        (case getattr obj (''get_'' @ name) of
           Inl e \<Rightarrow> Inl e
         | Inr g \<Rightarrow> call0 g)
      else Inr (PExc (AttributeError (pprint obj @ '' has no attribute '' @ name))))"

section \<open>Tree paths and the matcher\<close>

datatype NthOf = NthOf (nth_i: int) (nth_n: int)

type_synonym TreePath = "NthOf list"

definition ROOT_TREE_PATH :: TreePath where
  "ROOT_TREE_PATH = [NthOf 0 1]"

text \<open>
  The value of a condition of \<^verbatim>\<open>MatchArgs\<close>: a string, a byte string, an integer, a
  compiled pattern (given by what its \<^verbatim>\<open>fullmatch(...) is not None\<close> computes), a
  callable of one argument, a callable of two arguments, or a value of another kind,
  which is neither callable nor comparable with an integer. A callable may raise; a
  callable given the wrong number of arguments raises \<^verbatim>\<open>TypeError\<close>.
\<close>

datatype cond_value =
    VStr string
  | VBytes "char list"
  | VInt int
  | VPattern "pyval \<Rightarrow> pyerror + bool"
  | VFun1 "pyval \<Rightarrow> pyerror + bool"
  | VFun2 "node \<Rightarrow> TreePath \<Rightarrow> pyerror + bool"
  | VOther

text \<open>
  \<^verbatim>\<open>==\<close> between an attribute value and a literal string or byte string: values of
  different kinds are never equal, and an exception object equals no string.
\<close>

fun eq_literal :: "pyval \<Rightarrow> cond_value \<Rightarrow> bool" where
  "eq_literal (PStr a) (VStr b) = (a = b)"
| "eq_literal (PBytes a) (VBytes b) = (a = b)"
| "eq_literal v w = False"

text \<open>
  \<^verbatim>\<open>_match\<close>, branch by branch. \<^verbatim>\<open>path[-1]\<close> raises on the empty tuple; \<^verbatim>\<open>value >= 0\<close>
  raises unless the value is an integer; the branches \<^verbatim>\<open>path\<close> and the final
  \<^verbatim>\<open>else\<close> evaluate the undefined name \<^verbatim>\<open>TODO\<close>.
\<close>

fun match_nth :: "TreePath \<Rightarrow> cond_value \<Rightarrow> pyerror + bool" where
  "match_nth path (VInt v) =
     (let nth_of = last path;
          idx = (if v \<ge> 0 then v else nth_n nth_of + v)
      in Inr (idx = nth_i nth_of))"
| "match_nth path v = Inl TypeError"

fun match_when :: "node \<Rightarrow> TreePath \<Rightarrow> cond_value \<Rightarrow> pyerror + bool" where
  "match_when obj path (VFun2 f) = f obj path"
| "match_when obj path v = Inl TypeError"

fun match_attr :: "node \<Rightarrow> string \<Rightarrow> cond_value \<Rightarrow> pyerror + bool" where
  "match_attr obj name (VStr s) =
     (case obj_get_attr obj name of
        Inl e \<Rightarrow> Inl e
      | Inr a \<Rightarrow> Inr (eq_literal a (VStr s)))"
| "match_attr obj name (VBytes s) =
     (case obj_get_attr obj name of
        Inl e \<Rightarrow> Inl e
      | Inr a \<Rightarrow> Inr (eq_literal a (VBytes s)))"
| "match_attr obj name (VPattern fullmatch) =
     (case obj_get_attr obj name of
        Inl e \<Rightarrow> Inl e
      | Inr attr_value \<Rightarrow> if is_error attr_value then Inr False else fullmatch attr_value)"
| "match_attr obj name (VFun1 f) =
     (case obj_get_attr obj name of
        Inl e \<Rightarrow> Inl e
      | Inr a \<Rightarrow> f a)"
| "match_attr obj name (VFun2 f) =
     (case obj_get_attr obj name of
        Inl e \<Rightarrow> Inl e
      | Inr a \<Rightarrow> Inl TypeError)"
| "match_attr obj name v = Inl NameError"

definition match :: "node \<Rightarrow> TreePath \<Rightarrow> string \<Rightarrow> cond_value \<Rightarrow> pyerror + bool" where
  "match obj path name v =
     (if name = ''path'' then Inl NameError
      else if name = ''nth'' then (if path = [] then Inl IndexError else match_nth path v)
      else if name = ''when'' then match_when obj path v
      else match_attr obj name v)"

section \<open>Tree walker\<close>

text \<open>\<^verbatim>\<open>obj_children\<close>: the list of the children, by index.\<close>

definition obj_children :: "node \<Rightarrow> node list" where
  "obj_children obj = children obj"

text \<open>
  \<^verbatim>\<open>tree_walk\<close> is a recursive generator; on a finite tree the sequence it yields is
  the list below: first \<^verbatim>\<open>(path, root)\<close>, then, for each child in the order of
  \<^verbatim>\<open>enumerate(children)\<close>, everything the recursive call yields. The depth of Python's
  call stack is not modelled.
\<close>

function tree_walk :: "node \<Rightarrow> TreePath \<Rightarrow> (TreePath \<times> node) list" where
  "tree_walk root path =
     (path, root) #
       concat (map (\<lambda>(i, child).
                      tree_walk child (path @ [NthOf (int i) (int (length (obj_children root)))]))
                   (enumerate 0 (obj_children root)))"
  by pat_completeness auto
termination
proof (relation "measure (\<lambda>(root, path). size root)")
  show "wf (measure (\<lambda>(root, path). size root))" by simp
next
  fix root :: node and path :: TreePath and x :: "nat \<times> node" and i child
  assume "x \<in> set (enumerate 0 (obj_children root))" and "(i, child) = x"
  then have "child \<in> set (children root)"
    by (auto simp: obj_children_def in_set_enumerate_eq)
  then have "size child < size root"
    by (cases root) (auto simp: less_Suc_eq_le size_list_estimation')
  then show "((child, path @ [NthOf (int i) (int (length (obj_children root)))]), (root, path))
        \<in> measure (\<lambda>(root, path). size root)"
    by simp
qed

declare tree_walk.simps [simp del]

text \<open>
  What the walk is compared with. \<open>preorder\<close> is the depth-first pre-order listing of
  a tree: the node, then the listings of its children from left to right.
  \<open>descend t ss\<close> follows the segments \<open>ss\<close> down from \<open>t\<close>: a segment \<open>(i, n)\<close>
  is valid at a node with exactly \<open>n\<close> children and \<open>0 \<le> i < n\<close>, and leads to the
  child of index \<open>i\<close>; the result is the node reached, if every segment is valid.
\<close>

function preorder :: "node \<Rightarrow> node list" where
  "preorder t = t # concat (map preorder (children t))"
  by pat_completeness auto
termination
proof (relation "measure size")
  show "wf (measure size)" by simp
next
  fix t x :: node
  assume "x \<in> set (children t)"
  then have "size x < size t"
    by (cases t) (auto simp: less_Suc_eq_le size_list_estimation')
  then show "(x, t) \<in> measure size" by simp
qed

declare preorder.simps [simp del]

fun descend :: "node \<Rightarrow> TreePath \<Rightarrow> node option" where
  "descend t [] = Some t"
| "descend t (s # ss) =
     (if nth_n s = int (length (children t)) \<and> 0 \<le> nth_i s \<and> nth_i s < nth_n s
      then descend (children t ! nat (nth_i s)) ss
      else None)"

section \<open>Query engine\<close>

text \<open>
  \<^verbatim>\<open>MatchArgs\<close> is a \<^verbatim>\<open>dict\<close>: the pairs of \<^verbatim>\<open>kwargs.items()\<close> in their order, one
  value for each name.
\<close>

type_synonym MatchArgs = "(string \<times> cond_value) list"

text \<open>
  The filter of \<^verbatim>\<open>_find_all_descendants\<close>,
  \<^verbatim>\<open>all(_match(obj, path, name, value) for name, value in kwargs.items())\<close>:
  \<^verbatim>\<open>all\<close> stops at the first false condition, and a condition that raises ends
  the evaluation.
\<close>

fun matches :: "node \<Rightarrow> TreePath \<Rightarrow> MatchArgs \<Rightarrow> pyerror + bool" where
  "matches obj path [] = Inr True"
| "matches obj path ((name, v) # kwargs) =
     (case match obj path name v of
        Inl e \<Rightarrow> Inl e
      | Inr b \<Rightarrow> if b then matches obj path kwargs else Inr False)"

fun filter_walk :: "MatchArgs \<Rightarrow> (TreePath \<times> node) list \<Rightarrow> pyerror + node list" where
  "filter_walk kwargs [] = Inr []"
| "filter_walk kwargs ((path, obj) # rest) =
     (case matches obj path kwargs of
        Inl e \<Rightarrow> Inl e
      | Inr b \<Rightarrow>
          (case filter_walk kwargs rest of
             Inl e \<Rightarrow> Inl e
           | Inr objs \<Rightarrow> Inr (if b then obj # objs else objs)))"

text \<open>
  \<^verbatim>\<open>_find_all_descendants\<close> returns a generator; the value here is what consuming it
  to the end gives, as \<^verbatim>\<open>result.extend\<close> does in \<^verbatim>\<open>objects_in\<close>.
\<close>

definition find_all_descendants :: "node \<Rightarrow> MatchArgs \<Rightarrow> pyerror + node list" where
  "find_all_descendants root kwargs =
     (if length kwargs = 0 then Inr (map snd (tree_walk root ROOT_TREE_PATH))
      else filter_walk kwargs (tree_walk root ROOT_TREE_PATH))"

datatype root_s = OneRoot node | Roots "node list"

fun objects_in_extend :: "MatchArgs \<Rightarrow> node list \<Rightarrow> node list \<Rightarrow> pyerror + node list" where
  "objects_in_extend kwargs [] result = Inr result"
| "objects_in_extend kwargs (root # roots) result =
     (case (if length kwargs = 0 then Inr (map snd (tree_walk root ROOT_TREE_PATH))
            else find_all_descendants root kwargs) of
        Inl e \<Rightarrow> Inl e
      | Inr objs \<Rightarrow> objects_in_extend kwargs roots (result @ objs))"

definition objects_in :: "root_s \<Rightarrow> MatchArgs \<Rightarrow> pyerror + node list" where
  "objects_in rs kwargs =
     objects_in_extend kwargs (case rs of OneRoot root \<Rightarrow> [root] | Roots roots \<Rightarrow> roots) []"

text \<open>
  The two sides of the composition property. \<open>dict_union c1 c2\<close> is the union of two
  dicts, \<^verbatim>\<open>c1 | c2\<close>: the names of \<open>c1\<close> in their order, with the value of \<open>c2\<close>
  where \<open>c2\<close> has the name too, then the names that only \<open>c2\<close> has. \<open>py_and a b\<close>
  is \<^verbatim>\<open>a and b\<close> on two evaluations that may raise.
\<close>

definition dict_union :: "MatchArgs \<Rightarrow> MatchArgs \<Rightarrow> MatchArgs" where
  "dict_union c1 c2 =
     map (\<lambda>(name, v). (name, case map_of c2 name of None \<Rightarrow> v | Some w \<Rightarrow> w)) c1
     @ filter (\<lambda>(name, w). map_of c1 name = None) c2"

definition py_and :: "pyerror + bool \<Rightarrow> pyerror + bool \<Rightarrow> pyerror + bool" where
  "py_and a b = (case a of Inl e \<Rightarrow> Inl e | Inr x \<Rightarrow> if x then b else Inr False)"

section \<open>Iterables\<close>

text \<open>
  The \<^verbatim>\<open>Iterable\<close> arguments are either a list, as \<^verbatim>\<open>objects_in\<close> returns, or an
  iterator (a generator, the result of \<^verbatim>\<open>iter\<close>) with the elements it has still to
  yield. \<^verbatim>\<open>iter\<close> of a list is a new iterator over it and \<^verbatim>\<open>iter\<close> of an iterator is
  that iterator; \<^verbatim>\<open>next\<close> raises \<^verbatim>\<open>TypeError\<close> on an object that is not an iterator, also
  when a default is given, and otherwise takes the first element off, or raises
  \<^verbatim>\<open>StopIteration\<close> (returns the default, here \<open>None\<close> for \<^verbatim>\<open>_MARK\<close>) at the end.
  A \<^verbatim>\<open>for\<close> loop or a comprehension goes through \<open>elements\<close>.
\<close>

datatype 'a iterable = PyList "'a list" | PyIterator "'a list"

fun iter :: "'a iterable \<Rightarrow> 'a iterable" where
  "iter (PyList xs) = PyIterator xs"
| "iter (PyIterator xs) = PyIterator xs"

fun py_next :: "'a iterable \<Rightarrow> pyerror + ('a \<times> 'a iterable)" where
  "py_next (PyList xs) = Inl TypeError"
| "py_next (PyIterator []) = Inl StopIteration"
| "py_next (PyIterator (x # xs)) = Inr (x, PyIterator xs)"

fun py_next_default :: "'a iterable \<Rightarrow> pyerror + ('a option \<times> 'a iterable)" where
  "py_next_default (PyList xs) = Inl TypeError"
| "py_next_default (PyIterator []) = Inr (None, PyIterator [])"
| "py_next_default (PyIterator (x # xs)) = Inr (Some x, PyIterator xs)"

fun elements :: "'a iterable \<Rightarrow> 'a list" where
  "elements (PyList xs) = xs"
| "elements (PyIterator xs) = xs"

section \<open>Action dispatcher\<close>

text \<open>
  The effect of \<^verbatim>\<open>obj.do_action(idx)\<close> is recorded in a log of the invocations made so
  far: the object and the index of the action, in the order of the calls. Every
  function of the dispatcher returns its outcome together with the log.
\<close>

type_synonym invocations = "(node \<times> nat) list"

fun join :: "string \<Rightarrow> string list \<Rightarrow> string" where
  "join sep [] = []"
| "join sep [x] = x"
| "join sep (x # y # ys) = x @ sep @ join sep (y # ys)"

text \<open>\<^verbatim>\<open>Action._do_action\<close>.\<close>

definition do_action :: "string \<Rightarrow> node \<Rightarrow> invocations \<Rightarrow> (pyerror + unit) \<times> invocations" where
  "do_action action_name obj log =
     (case get_action_idx obj action_name of
        None \<Rightarrow>
          (Inl (NotFoundError (''widget '' @ pprint obj @ '' has no action named '' @ [CHR 0x27]
                   @ action_name @ [CHR 0x27] @ '', got: '' @ join '','' (get_actions_names obj))),
           log)
      | Some idx \<Rightarrow> (Inr (), log @ [(obj, idx)]))"

text \<open>\<^verbatim>\<open>Action.on_all\<close>: the loop ends at the first object whose action raises.\<close>

fun on_all_loop :: "string \<Rightarrow> node list \<Rightarrow> invocations \<Rightarrow> (pyerror + unit) \<times> invocations" where
  "on_all_loop action_name [] log = (Inr (), log)"
| "on_all_loop action_name (obj # objs) log =
     (case do_action action_name obj log of
        (Inl e, log') \<Rightarrow> (Inl e, log')
      | (Inr u, log') \<Rightarrow> on_all_loop action_name objs log')"

definition on_all :: "string \<Rightarrow> node iterable \<Rightarrow> invocations \<Rightarrow> (pyerror + unit) \<times> invocations" where
  "on_all action_name objs log = on_all_loop action_name (elements objs) log"

text \<open>\<^verbatim>\<open>Action.on_first\<close>: \<^verbatim>\<open>next(objs)\<close> on the argument as it is given.\<close>

definition on_first :: "string \<Rightarrow> node iterable \<Rightarrow> invocations \<Rightarrow> (pyerror + unit) \<times> invocations" where
  "on_first action_name objs log =
     (case py_next objs of
        Inl e \<Rightarrow> (Inl e, log)
      | Inr (obj, rest) \<Rightarrow> do_action action_name obj log)"

text \<open>
  \<^verbatim>\<open>Action.on\<close>: \<^verbatim>\<open>iter(objs)\<close> first, then one \<^verbatim>\<open>next\<close>, then a second \<^verbatim>\<open>next\<close> with the
  default \<^verbatim>\<open>_MARK\<close>. The message of the \<^verbatim>\<open>AssertionError\<close> ends in the \<^verbatim>\<open>repr\<close> of
  \<^verbatim>\<open>objs\<close>, which is left out here.
\<close>

definition on :: "string \<Rightarrow> node iterable \<Rightarrow> invocations \<Rightarrow> (pyerror + unit) \<times> invocations" where
  "on action_name objs log =
     (let objs_iter = iter objs in
      case py_next objs_iter of
        Inl e \<Rightarrow> (Inl e, log)
      | Inr (obj, objs_iter') \<Rightarrow>
          (case py_next_default objs_iter' of
             Inl e \<Rightarrow> (Inl e, log)
           | Inr (Some other, objs_iter'') \<Rightarrow>
               (Inl (AssertionError (''when doing '' @ [CHR 0x27] @ action_name @ [CHR 0x27]
                        @ '' on object, found more than one object: '')),
                log)
           | Inr (None, objs_iter'') \<Rightarrow> do_action action_name obj log))"

section \<open>Expectation engine\<close>

text \<open>
  \<^verbatim>\<open>Expectation._check\<close>, with \<^verbatim>\<open>self.which_one\<close> and \<^verbatim>\<open>self.objects\<close> as arguments. The
  predicate is a function to \<^verbatim>\<open>bool\<close> that returns, as the one \<^verbatim>\<open>to_show\<close> builds. The
  value is what \<^verbatim>\<open>_check\<close> returns or raises; how far an iterator has been consumed
  afterwards is not part of it.
\<close>

definition check :: "string \<Rightarrow> node iterable \<Rightarrow> (node \<Rightarrow> bool) \<Rightarrow> pyerror + bool" where
  "check which_one objects predicate =
     (if which_one = ''all'' then Inr (list_all predicate (elements objects))
      else if which_one = ''any'' then Inr (list_ex predicate (elements objects))
      else if which_one = ''first'' then
        (case py_next_default objects of
           Inl e \<Rightarrow> Inl e
         | Inr (None, rest) \<Rightarrow> Inr False
         | Inr (Some obj, rest) \<Rightarrow> Inr (predicate obj))
      else if which_one = ''one'' then
        (let checks = filter predicate (elements objects) in Inr (length checks = 1))
      else Inl (RuntimeError (''unknown which_one= '' @ which_one)))"

text \<open>The predicate of \<^verbatim>\<open>to_show(text)\<close>: \<^verbatim>\<open>obj_get_attr(obj, 'text') == text\<close>.\<close>

definition to_show_predicate :: "cond_value \<Rightarrow> node \<Rightarrow> bool" where
  "to_show_predicate text obj =
     (case obj_get_attr obj ''text'' of Inl e \<Rightarrow> False | Inr v \<Rightarrow> eq_literal v text)"

section \<open>Application bootstrap\<close>

text \<open>
  \<^verbatim>\<open>SUT\<close>: the process handle (\<^verbatim>\<open>None\<close> or a \<^verbatim>\<open>Popen\<close> object, given by its process
  id), the application's node if it was found, and the path. The effect of
  \<^verbatim>\<open>process.kill()\<close> is recorded in the list of the process ids killed so far.
\<close>

record SUT =
  sut_process :: "nat option"
  sut_app :: "node option"
  sut_path :: string

definition SUT_enter :: "SUT \<Rightarrow> pyerror + SUT" where
  "SUT_enter self =
     (if sut_app self = None
      then Inl (RuntimeError (''the application '' @ sut_path self @ '' didn'' @ [CHR 0x27] @ ''t show up in desktop''))
      else Inr self)"

definition SUT_exit :: "SUT \<Rightarrow> nat list \<Rightarrow> nat list" where
  "SUT_exit self killed =
     (case sut_process self of None \<Rightarrow> killed | Some pid \<Rightarrow> killed @ [pid])"

text \<open>
  The \<^verbatim>\<open>with\<close> statement on a \<^verbatim>\<open>SUT\<close>, as Python runs it: \<^verbatim>\<open>__enter__\<close> is called
  first, and when it raises the exception propagates: the body does not run and
  \<^verbatim>\<open>__exit__\<close> is not called. Otherwise the body runs on the value \<^verbatim>\<open>__enter__\<close>
  returned and \<^verbatim>\<open>__exit__\<close> is called however the body ends; \<^verbatim>\<open>SUT.__exit__\<close> returns
  \<^verbatim>\<open>None\<close>, so an exception of the body propagates after it.
\<close>

definition with_SUT ::
  "SUT \<Rightarrow> (SUT \<Rightarrow> nat list \<Rightarrow> (pyerror + 'a) \<times> nat list) \<Rightarrow> nat list \<Rightarrow> (pyerror + 'a) \<times> nat list" where
  "with_SUT sut body killed =
     (case SUT_enter sut of
        Inl e \<Rightarrow> (Inl e, killed)
      | Inr v \<Rightarrow> (case body v killed of (r, killed') \<Rightarrow> (r, SUT_exit sut killed')))"

section \<open>Properties\<close>

subsection \<open>Action dispatcher, expectations and the session\<close>

text \<open>
  Claim C1. \<^verbatim>\<open>do(action).on(objs)\<close>: when \<^verbatim>\<open>objs\<close> yields exactly one object, the outcome
  is that of invoking the action on that object, and when the object has the action
  the log grows by this one invocation and nothing else; when \<^verbatim>\<open>objs\<close> yields two
  objects or more, an \<^verbatim>\<open>AssertionError\<close> is raised and the log is unchanged: no action
  has been invoked.
\<close>

theorem on_single_or_ambiguous:
  "(elements objs = [obj] \<longrightarrow> on a objs log = do_action a obj log)
   \<and> (elements objs = [obj] \<and> get_action_idx obj a = Some idx
        \<longrightarrow> on a objs log = (Inr (), log @ [(obj, idx)]))
   \<and> (2 \<le> length (elements objs)
        \<longrightarrow> (\<exists>msg. fst (on a objs log) = Inl (AssertionError msg)) \<and> snd (on a objs log) = log)"
proof -
  have one: "on a objs log = do_action a obj log" if "elements objs = [obj]"
    using that by (cases objs) (simp_all add: on_def)
  have many: "(\<exists>msg. fst (on a objs log) = Inl (AssertionError msg)) \<and> snd (on a objs log) = log"
    if "2 \<le> length (elements objs)"
  proof -
    from that obtain x ys where xs: "elements objs = x # ys" and "1 \<le> length ys"
      by (cases "elements objs") auto
    then obtain y zs where "ys = y # zs"
      by (cases ys) auto
    with xs show ?thesis by (cases objs) (simp_all add: on_def)
  qed
  from one many show ?thesis by (auto simp: do_action_def)
qed

theorem on_single_or_ambiguous_witness:
  "on ''click'' (PyList [Node ''push button'' (Some ''Contar'') PNone [] [''press'', ''click''] []]) []
     = (Inr (), [(Node ''push button'' (Some ''Contar'') PNone [] [''press'', ''click''] [], 1)])
   \<and> on ''click'' (PyIterator [Node ''push button'' (Some ''Contar'') PNone [] [''press'', ''click''] [],
                              Node ''push button'' (Some ''Salir'') PNone [] [''click''] []]) []
     = (Inl (AssertionError (''when doing '' @ [CHR 0x27] @ ''click'' @ [CHR 0x27]
                @ '' on object, found more than one object: '')), [])"
proof -
  let ?b1 = "Node ''push button'' (Some ''Contar'') PNone [] [''press'', ''click''] []"
  let ?b2 = "Node ''push button'' (Some ''Salir'') PNone [] [''click''] []"
  have idx: "get_action_idx ?b1 ''click'' = Some 1"
    by (simp add: get_action_idx_def)
  have single: "on ''click'' (PyList [?b1]) [] = (Inr (), [(?b1, 1)])"
    using on_single_or_ambiguous [where objs = "PyList [?b1]" and obj = ?b1 and a = "''click''"
        and idx = 1 and log = "[]"] idx by (simp add: do_action_def)
  have "snd (on ''click'' (PyIterator [?b1, ?b2]) []) = []"
    using on_single_or_ambiguous [where objs = "PyIterator [?b1, ?b2]" and obj = ?b1
        and a = "''click''" and idx = 1 and log = "[]"] by simp
  then have many: "on ''click'' (PyIterator [?b1, ?b2]) []
     = (Inl (AssertionError (''when doing '' @ [CHR 0x27] @ ''click'' @ [CHR 0x27]
                @ '' on object, found more than one object: '')), [])"
    by (simp add: on_def)
  from single many show ?thesis by simp
qed

text \<open>
  Claim C2. Entering a \<^verbatim>\<open>SUT\<close> whose application is absent raises, whatever the body is:
  the body does not run. No process is killed on that path: the list of killed
  processes is unchanged. When the application is present the process is killed
  after the body, however the body ends.
\<close>

theorem failed_entry_skips_exit:
  "with_SUT \<lparr>sut_process = Some pid, sut_app = None, sut_path = p\<rparr> body killed
     = (Inl (RuntimeError (''the application '' @ p @ '' didn'' @ [CHR 0x27] @ ''t show up in desktop'')), killed)
   \<and> with_SUT \<lparr>sut_process = Some pid, sut_app = Some app, sut_path = p\<rparr> body killed
     = (fst (body \<lparr>sut_process = Some pid, sut_app = Some app, sut_path = p\<rparr> killed),
        snd (body \<lparr>sut_process = Some pid, sut_app = Some app, sut_path = p\<rparr> killed) @ [pid])"
  by (simp add: with_SUT_def SUT_enter_def SUT_exit_def split: prod.splits)

text \<open>
  Claim C3. The check of the quantifier \<^verbatim>\<open>one\<close> returns whether the predicate holds
  for exactly one element of the sequence: it is true if and only if there is one
  position of the sequence where the predicate holds and no other; it is false when
  the predicate holds nowhere and false when it holds at two positions or more.
\<close>

theorem check_one_exactly_one:
  "check ''one'' objs p = Inr (length (filter p (elements objs)) = 1)
   \<and> (check ''one'' objs p = Inr True
        \<longleftrightarrow> (\<exists>k<length (elements objs). p (elements objs ! k)
               \<and> (\<forall>j<length (elements objs). p (elements objs ! j) \<longrightarrow> j = k)))
   \<and> (\<not> list_ex p (elements objs) \<longrightarrow> check ''one'' objs p = Inr False)
   \<and> (2 \<le> length (filter p (elements objs)) \<longrightarrow> check ''one'' objs p = Inr False)"
proof -
  let ?xs = "elements objs"
  let ?S = "{i. i < length ?xs \<and> p (?xs ! i)}"
  have c: "check ''one'' objs p = Inr (length (filter p ?xs) = 1)"
    by (simp add: check_def)
  have card: "length (filter p ?xs) = card ?S"
    by (rule length_filter_conv_card)
  have "card ?S = 1 \<longleftrightarrow> (\<exists>k<length ?xs. p (?xs ! k) \<and> (\<forall>j<length ?xs. p (?xs ! j) \<longrightarrow> j = k))"
  proof
    assume "card ?S = 1"
    then obtain k where k: "?S = {k}" by (auto simp: card_1_singleton_iff)
    then have "k \<in> ?S" by simp
    moreover have "j = k" if "j < length ?xs" "p (?xs ! j)" for j
      using that k by blast
    ultimately show "\<exists>k<length ?xs. p (?xs ! k) \<and> (\<forall>j<length ?xs. p (?xs ! j) \<longrightarrow> j = k)"
      by blast
  next
    assume "\<exists>k<length ?xs. p (?xs ! k) \<and> (\<forall>j<length ?xs. p (?xs ! j) \<longrightarrow> j = k)"
    then obtain k where "k < length ?xs" "p (?xs ! k)" "\<forall>j<length ?xs. p (?xs ! j) \<longrightarrow> j = k"
      by blast
    then have "?S = {k}" by blast
    then show "card ?S = 1" by simp
  qed
  moreover have "length (filter p ?xs) = 0" if "\<not> list_ex p ?xs"
    using that by (simp add: list_ex_iff filter_empty_conv)
  ultimately show ?thesis
    using c card by auto
qed

theorem check_one_exactly_one_witness:
  "check ''one'' (PyList [Node ''label'' None (PStr ''A'') [] [] [], Node ''label'' None (PStr ''B'') [] [] []])
      (to_show_predicate (VStr ''A'')) = Inr True
   \<and> check ''one'' (PyList []) (to_show_predicate (VStr ''A'')) = Inr False
   \<and> check ''all'' (PyList []) (to_show_predicate (VStr ''A'')) = Inr True
   \<and> check ''one'' (PyList [Node ''label'' None (PStr ''A'') [] [] [], Node ''label'' (Some ''x'') (PStr ''A'') [] [] []])
      (to_show_predicate (VStr ''A'')) = Inr False
   \<and> check ''any'' (PyList [Node ''label'' None (PStr ''A'') [] [] [], Node ''label'' (Some ''x'') (PStr ''A'') [] [] []])
      (to_show_predicate (VStr ''A'')) = Inr True
   \<and> check ''all'' (PyList [Node ''label'' None (PStr ''A'') [] [] [], Node ''label'' (Some ''x'') (PStr ''A'') [] [] []])
      (to_show_predicate (VStr ''A'')) = Inr True"
proof -
  let ?p = "to_show_predicate (VStr ''A'')"
  let ?a = "Node ''label'' None (PStr ''A'') [] [] []"
  let ?a' = "Node ''label'' (Some ''x'') (PStr ''A'') [] [] []"
  let ?b = "Node ''label'' None (PStr ''B'') [] [] []"
  have p: "?p ?a" "?p ?a'" "\<not> ?p ?b"
    by (simp_all add: to_show_predicate_def obj_get_attr_def)
  have one: "check ''one'' (PyList [?a, ?b]) ?p = Inr True"
    using check_one_exactly_one [of "PyList [?a, ?b]" ?p] p by simp
  have zero: "check ''one'' (PyList []) ?p = Inr False"
    using check_one_exactly_one [of "PyList []" ?p] by simp
  have two: "check ''one'' (PyList [?a, ?a']) ?p = Inr False"
    using check_one_exactly_one [of "PyList [?a, ?a']" ?p] p by simp
  have others: "check ''all'' (PyList []) ?p = Inr True"
    "check ''any'' (PyList [?a, ?a']) ?p = Inr True"
    "check ''all'' (PyList [?a, ?a']) ?p = Inr True"
    using p by (simp_all add: check_def)
  from one zero two others show ?thesis by simp
qed

text \<open>
  Claim C4. \<^verbatim>\<open>do(action).on_first(objs)\<close> on an iterator invokes the action on the first
  object it yields and on no other, and raises \<^verbatim>\<open>StopIteration\<close> when it yields none; on
  a list it raises \<^verbatim>\<open>TypeError\<close> and invokes nothing.
\<close>

theorem on_first_needs_iterator:
  "on_first a (PyIterator (obj # rest)) log = do_action a obj log
   \<and> on_first a (PyIterator []) log = (Inl StopIteration, log)
   \<and> on_first a (PyList objs) log = (Inl TypeError, log)"
  by (simp add: on_first_def)

subsection \<open>Matcher: conditions and their union\<close>

lemma matches_append:
  "matches obj path (c1 @ c2) = py_and (matches obj path c1) (matches obj path c2)"
  by (induction c1) (auto simp: py_and_def split: sum.splits if_splits)

lemma matches_True_iff:
  "matches obj path c = Inr True \<longleftrightarrow> (\<forall>(name, v) \<in> set c. match obj path name v = Inr True)"
  by (induction c) (auto split: sum.splits if_splits)

lemma matches_filter:
  assumes "\<And>name v. (name, v) \<in> set c \<Longrightarrow> \<not> P (name, v) \<Longrightarrow> match obj path name v = Inr True"
  shows "matches obj path (filter P c) = matches obj path c"
  using assms by (induction c) (auto split: sum.splits)

lemma dict_union_compatible:
  assumes "distinct (map fst c1)"
    and "\<And>name v w. map_of c1 name = Some v \<Longrightarrow> map_of c2 name = Some w \<Longrightarrow> v = w"
  shows "dict_union c1 c2 = c1 @ filter (\<lambda>(name, w). map_of c1 name = None) c2"
proof -
  have "map (\<lambda>(name, v). (name, case map_of c2 name of None \<Rightarrow> v | Some w \<Rightarrow> w)) c1 = map (\<lambda>x. x) c1"
  proof (rule map_cong [OF refl])
    fix x assume x: "x \<in> set c1"
    obtain name v where nv: "x = (name, v)" by (cases x)
    with x assms(1) have "map_of c1 name = Some v" by simp
    with assms(2) have "(case map_of c2 name of None \<Rightarrow> v | Some w \<Rightarrow> w) = v"
      by (auto split: option.splits)
    with nv show "(case x of (name, v) \<Rightarrow> (name, case map_of c2 name of None \<Rightarrow> v | Some w \<Rightarrow> w)) = x"
      by simp
  qed
  then show ?thesis by (simp add: dict_union_def)
qed

text \<open>
  Claim C5. For two condition sets that give the same value to every name they share,
  matching a node and its path against their union is the conjunction (\<^verbatim>\<open>and\<close>) of
  matching it against each; the empty condition set matches every node, and
  \<^verbatim>\<open>_find_all_descendants\<close> with no condition returns every node of the walk.
\<close>

theorem matches_union_is_conjunction:
  assumes "distinct (map fst c1)" and "distinct (map fst c2)"
    and "\<forall>name v w. map_of c1 name = Some v \<and> map_of c2 name = Some w \<longrightarrow> v = w"
  shows "matches obj path (dict_union c1 c2) = py_and (matches obj path c1) (matches obj path c2)
       \<and> matches obj path [] = Inr True
       \<and> find_all_descendants obj [] = Inr (map snd (tree_walk obj ROOT_TREE_PATH))"
proof -
  let ?c2' = "filter (\<lambda>(name, w). map_of c1 name = None) c2"
  have u: "dict_union c1 c2 = c1 @ ?c2'"
    using assms(1,3) by (intro dict_union_compatible) blast+
  have "py_and (matches obj path c1) (matches obj path ?c2')
      = py_and (matches obj path c1) (matches obj path c2)"
  proof (cases "matches obj path c1 = Inr True")
    case True
    have "matches obj path ?c2' = matches obj path c2"
    proof (rule matches_filter)
      fix name w
      assume in2: "(name, w) \<in> set c2" and "\<not> (case (name, w) of (name, w) \<Rightarrow> map_of c1 name = None)"
      then obtain v where v: "map_of c1 name = Some v" by auto
      from in2 assms(2) have "map_of c2 name = Some w" by simp
      with v assms(3) have "v = w" by blast
      with v have "(name, w) \<in> set c1" by (simp add: map_of_SomeD)
      with True show "match obj path name w = Inr True"
        by (auto simp: matches_True_iff)
    qed
    then show ?thesis by simp
  next
    case False
    then show ?thesis by (auto simp: py_and_def split: sum.splits)
  qed
  then show ?thesis
    by (simp add: u matches_append find_all_descendants_def)
qed

theorem matches_union_is_conjunction_witness:
  "matches (Node ''label'' (Some ''total'') (PStr ''7'') [] [] []) ROOT_TREE_PATH
     (dict_union [(''role'', VStr ''label'')] [(''role'', VStr ''label''), (''name'', VStr ''total'')])
   = py_and (matches (Node ''label'' (Some ''total'') (PStr ''7'') [] [] []) ROOT_TREE_PATH
               [(''role'', VStr ''label'')])
            (matches (Node ''label'' (Some ''total'') (PStr ''7'') [] [] []) ROOT_TREE_PATH
               [(''role'', VStr ''label''), (''name'', VStr ''total'')])
   \<and> dict_union [(''role'', VStr ''label'')] [(''role'', VStr ''label''), (''name'', VStr ''total'')]
       = [(''role'', VStr ''label''), (''name'', VStr ''total'')]
   \<and> matches (Node ''label'' (Some ''total'') (PStr ''7'') [] [] []) ROOT_TREE_PATH
       [(''role'', VStr ''label''), (''name'', VStr ''total'')] = Inr True"
proof -
  let ?c1 = "[(''role'', VStr ''label'')]"
  let ?c2 = "[(''role'', VStr ''label''), (''name'', VStr ''total'')]"
  have d1: "distinct (map fst ?c1)" by simp
  have d2: "distinct (map fst ?c2)" by simp
  have agree: "\<forall>name v w. map_of ?c1 name = Some v \<and> map_of ?c2 name = Some w \<longrightarrow> v = w"
    by (simp split: if_splits)
  have u: "dict_union ?c1 ?c2 = ?c2"
    by (simp add: dict_union_def)
  have m: "matches (Node ''label'' (Some ''total'') (PStr ''7'') [] [] []) ROOT_TREE_PATH ?c2 = Inr True"
    by (simp add: match_def obj_get_attr_def name_or_empty_def)
  from matches_union_is_conjunction [OF d1 d2 agree] u m show ?thesis
    by (simp add: match_def obj_get_attr_def name_or_empty_def py_and_def)
qed

text \<open>
  Two condition sets that give different values to one name: a dict keeps one value
  for the name, so the union holds one of the two conditions only. Whichever it keeps,
  the node that satisfies that condition matches the union and does not match both
  sets.
\<close>

theorem matches_union_conflict_counterexample:
  "matches (Node ''push button'' None PNone [] [] []) ROOT_TREE_PATH
     (dict_union [(''role'', VStr ''label'')] [(''role'', VStr ''push button'')]) = Inr True
   \<and> py_and (matches (Node ''push button'' None PNone [] [] []) ROOT_TREE_PATH [(''role'', VStr ''label'')])
            (matches (Node ''push button'' None PNone [] [] []) ROOT_TREE_PATH [(''role'', VStr ''push button'')])
       = Inr False
   \<and> matches (Node ''label'' None PNone [] [] []) ROOT_TREE_PATH
     (dict_union [(''role'', VStr ''push button'')] [(''role'', VStr ''label'')]) = Inr True
   \<and> py_and (matches (Node ''label'' None PNone [] [] []) ROOT_TREE_PATH [(''role'', VStr ''label'')])
            (matches (Node ''label'' None PNone [] [] []) ROOT_TREE_PATH [(''role'', VStr ''push button'')])
       = Inr False"
  by (simp add: dict_union_def py_and_def match_def obj_get_attr_def)

subsection \<open>Tree walker\<close>

lemma walk_nodes: "map snd (tree_walk t p) = preorder t"
proof (induction t p rule: tree_walk.induct)
  case (1 root path)
  let ?n = "int (length (obj_children root))"
  have "map (\<lambda>x. map snd (case x of (i, child) \<Rightarrow> tree_walk child (path @ [NthOf (int i) ?n])))
            (enumerate 0 (obj_children root))
        = map (\<lambda>x. preorder (snd x)) (enumerate 0 (obj_children root))"
    by (rule map_cong) (auto simp: "1.IH")
  also have "\<dots> = map preorder (map snd (enumerate 0 (obj_children root)))"
    unfolding map_map comp_def ..
  also have "\<dots> = map preorder (children root)"
    by (simp add: obj_children_def)
  finally show ?case
    by (subst tree_walk.simps, subst preorder.simps) (simp add: map_concat comp_def)
qed

lemma set_enumerate_zero: "set (enumerate 0 xs) = (\<lambda>i. (i, xs ! i)) ` {..<length xs}"
  by (force simp: in_set_enumerate_eq)

lemma set_tree_walk:
  "set (tree_walk t p) =
     insert (p, t) (\<Union>i\<in>{..<length (children t)}.
        set (tree_walk (children t ! i) (p @ [NthOf (int i) (int (length (children t)))])))"
  by (subst tree_walk.simps) (simp add: obj_children_def set_enumerate_zero)

lemma walk_member:
  "(q, nd) \<in> set (tree_walk t p) \<longleftrightarrow> (\<exists>ss. q = p @ ss \<and> descend t ss = Some nd)"
proof (induction t p arbitrary: q nd rule: tree_walk.induct)
  case (1 root path)
  let ?cs = "children root"
  let ?n = "int (length ?cs)"
  have IH: "(q', nd') \<in> set (tree_walk (?cs ! i) (path @ [NthOf (int i) ?n]))
        \<longleftrightarrow> (\<exists>ss. q' = (path @ [NthOf (int i) ?n]) @ ss \<and> descend (?cs ! i) ss = Some nd')"
    if "i < length ?cs" for i q' nd'
    using that "1.IH" [of "(i, ?cs ! i)" i "?cs ! i" q' nd']
    by (simp add: obj_children_def in_set_enumerate_eq)
  show ?case
  proof
    assume "(q, nd) \<in> set (tree_walk root path)"
    then consider "q = path" "nd = root"
      | i where "i < length ?cs" "(q, nd) \<in> set (tree_walk (?cs ! i) (path @ [NthOf (int i) ?n]))"
      by (subst (asm) set_tree_walk) auto
    then show "\<exists>ss. q = path @ ss \<and> descend root ss = Some nd"
    proof cases
      case 1
      then have "q = path @ [] \<and> descend root [] = Some nd" by simp
      then show ?thesis by blast
    next
      case 2
      then obtain ss where "q = (path @ [NthOf (int i) ?n]) @ ss" "descend (?cs ! i) ss = Some nd"
        using IH by blast
      with 2 have "q = path @ (NthOf (int i) ?n # ss) \<and> descend root (NthOf (int i) ?n # ss) = Some nd"
        by simp
      then show ?thesis by blast
    qed
  next
    assume "\<exists>ss. q = path @ ss \<and> descend root ss = Some nd"
    then obtain ss where ss: "q = path @ ss" "descend root ss = Some nd" by blast
    show "(q, nd) \<in> set (tree_walk root path)"
    proof (cases ss)
      case Nil
      with ss show ?thesis by (subst set_tree_walk) simp
    next
      case (Cons s ss')
      with ss have s: "nth_n s = ?n" "0 \<le> nth_i s" "nth_i s < nth_n s"
        and d: "descend (?cs ! nat (nth_i s)) ss' = Some nd"
        by (auto split: if_splits)
      let ?i = "nat (nth_i s)"
      from s have i: "?i < length ?cs" by simp
      from s have seg: "NthOf (int ?i) ?n = s" by (cases s) simp
      have "(q, nd) \<in> set (tree_walk (?cs ! ?i) (path @ [NthOf (int ?i) ?n]))"
        unfolding IH [OF i] using ss d Cons seg by simp
      with i show ?thesis by (subst set_tree_walk) blast
    qed
  qed
qed

lemma walk_prefix: "(q, nd) \<in> set (tree_walk t p) \<Longrightarrow> \<exists>ss. q = p @ ss"
  by (auto simp: walk_member)

lemma walk_children_distinct:
  assumes "\<And>c p. c \<in> set cs \<Longrightarrow> distinct (map fst (tree_walk c p))"
  shows "distinct (map fst (concat (map (\<lambda>(i, c). tree_walk c (p @ [NthOf (int i) m])) (enumerate k cs))))"
  using assms
proof (induction cs arbitrary: k)
  case Nil
  then show ?case by simp
next
  case (Cons c cs)
  let ?rest = "concat (map (\<lambda>(i, c). tree_walk c (p @ [NthOf (int i) m])) (enumerate (Suc k) cs))"
  have d1: "distinct (map fst (tree_walk c (p @ [NthOf (int k) m])))"
    using Cons.prems by simp
  have d2: "distinct (map fst ?rest)"
    using Cons.IH Cons.prems by simp
  have disj: "fst ` set (tree_walk c (p @ [NthOf (int k) m])) \<inter> fst ` set ?rest = {}"
  proof (rule ccontr)
    assume "fst ` set (tree_walk c (p @ [NthOf (int k) m])) \<inter> fst ` set ?rest \<noteq> {}"
    then obtain q nd nd' where a: "(q, nd) \<in> set (tree_walk c (p @ [NthOf (int k) m]))"
      and b: "(q, nd') \<in> set ?rest"
      by fastforce
    from b obtain j c' where j: "(j, c') \<in> set (enumerate (Suc k) cs)"
      and b': "(q, nd') \<in> set (tree_walk c' (p @ [NthOf (int j) m]))"
      by fastforce
    from j have "Suc k \<le> j" by (simp add: in_set_enumerate_eq)
    moreover from a obtain ss where "q = (p @ [NthOf (int k) m]) @ ss"
      using walk_prefix by blast
    moreover from b' obtain ss' where "q = (p @ [NthOf (int j) m]) @ ss'"
      using walk_prefix by blast
    ultimately show False by simp
  qed
  from d1 d2 disj show ?case by simp
qed

lemma walk_paths_distinct: "distinct (map fst (tree_walk t p))"
proof (induction t arbitrary: p)
  case (Node r nm tx at ac cs)
  have kids: "distinct (map fst (concat (map (\<lambda>(i, c). tree_walk c (p @ [NthOf (int i) (int (length cs))]))
                 (enumerate 0 cs))))"
    by (rule walk_children_distinct) (rule Node.IH)
  have "p \<notin> fst ` set (concat (map (\<lambda>(i, c). tree_walk c (p @ [NthOf (int i) (int (length cs))]))
                 (enumerate 0 cs)))"
  proof
    assume "p \<in> fst ` set (concat (map (\<lambda>(i, c). tree_walk c (p @ [NthOf (int i) (int (length cs))]))
                 (enumerate 0 cs)))"
    then obtain nd j c where "(p, nd) \<in> set (tree_walk c (p @ [NthOf (int j) (int (length cs))]))"
      by fastforce
    then obtain ss where "p = (p @ [NthOf (int j) (int (length cs))]) @ ss"
      using walk_prefix by blast
    then show False by simp
  qed
  with kids show ?case
    by (subst tree_walk.simps) (simp add: obj_children_def)
qed

lemma descend_append:
  "descend t (ss @ [s]) = (case descend t ss of None \<Rightarrow> None | Some nd \<Rightarrow> descend nd [s])"
  by (induction ss arbitrary: t) auto

text \<open>
  Claim C6. On a finite tree \<^verbatim>\<open>tree_walk\<close> yields the nodes of the tree rooted at the
  given root in depth-first pre-order. The paths it yields are pairwise different,
  and a pair of a path and a node is yielded exactly when the path is the given
  prefix followed by segments that lead from the root down to that node: so every
  node of the tree, at every position, is yielded once and only once. With the
  default prefix the root comes first and is tagged \<open>(0, 1)\<close>; and with every node
  yielded with the path \<open>q\<close>, its child of index \<open>i\<close> among \<open>n\<close> children is yielded
  with the path \<open>q\<close> followed by \<open>(i, n)\<close>.
\<close>

theorem tree_walk_preorder_once:
  "map snd (tree_walk root path) = preorder root
   \<and> distinct (map fst (tree_walk root path))
   \<and> (\<forall>q nd. (q, nd) \<in> set (tree_walk root path)
          \<longleftrightarrow> (\<exists>ss. q = path @ ss \<and> descend root ss = Some nd))
   \<and> tree_walk root ROOT_TREE_PATH \<noteq> []
   \<and> hd (tree_walk root ROOT_TREE_PATH) = ([NthOf 0 1], root)
   \<and> (\<forall>q nd i. (q, nd) \<in> set (tree_walk root path) \<and> i < length (children nd)
          \<longrightarrow> (q @ [NthOf (int i) (int (length (children nd)))], children nd ! i)
                \<in> set (tree_walk root path))"
proof -
  have kids: "(q @ [NthOf (int i) (int (length (children nd)))], children nd ! i)
                \<in> set (tree_walk root path)"
    if "(q, nd) \<in> set (tree_walk root path)" and "i < length (children nd)" for q nd i
  proof -
    from that(1) obtain ss where ss: "q = path @ ss" "descend root ss = Some nd"
      by (auto simp: walk_member)
    let ?s = "NthOf (int i) (int (length (children nd)))"
    from ss that(2) have "descend root (ss @ [?s]) = Some (children nd ! i)"
      by (simp add: descend_append)
    with ss have "\<exists>ss'. q @ [?s] = path @ ss' \<and> descend root ss' = Some (children nd ! i)"
      by (intro exI [of _ "ss @ [?s]"]) simp
    then show ?thesis by (simp add: walk_member)
  qed
  have hd: "tree_walk root ROOT_TREE_PATH \<noteq> [] \<and> hd (tree_walk root ROOT_TREE_PATH) = ([NthOf 0 1], root)"
    by (subst (1 2) tree_walk.simps) (simp add: ROOT_TREE_PATH_def)
  from kids hd show ?thesis
    by (simp add: walk_nodes walk_paths_distinct walk_member)
qed

theorem tree_walk_preorder_once_witness:
  "map snd (tree_walk
      (Node ''frame'' None PNone [] []
         [Node ''label'' None PNone [] [] [],
          Node ''panel'' None PNone [] [] [Node ''push button'' None PNone [] [] []]])
      ROOT_TREE_PATH)
   = [Node ''frame'' None PNone [] []
         [Node ''label'' None PNone [] [] [],
          Node ''panel'' None PNone [] [] [Node ''push button'' None PNone [] [] []]],
      Node ''label'' None PNone [] [] [],
      Node ''panel'' None PNone [] [] [Node ''push button'' None PNone [] [] []],
      Node ''push button'' None PNone [] [] []]
   \<and> ([NthOf 0 1, NthOf 1 2, NthOf 0 1], Node ''push button'' None PNone [] [] [])
       \<in> set (tree_walk
      (Node ''frame'' None PNone [] []
         [Node ''label'' None PNone [] [] [],
          Node ''panel'' None PNone [] [] [Node ''push button'' None PNone [] [] []]])
      ROOT_TREE_PATH)"
proof -
  let ?b = "Node ''push button'' None PNone [] [] []"
  let ?p = "Node ''panel'' None PNone [] [] [?b]"
  let ?l = "Node ''label'' None PNone [] [] []"
  let ?f = "Node ''frame'' None PNone [] [] [?l, ?p]"
  note t = tree_walk_preorder_once [of ?f ROOT_TREE_PATH]
  have pre: "preorder ?f = [?f, ?l, ?p, ?b]"
    by (simp add: preorder.simps)
  have "descend ?f [NthOf 1 2, NthOf 0 1] = Some ?b"
    by simp
  then have "\<exists>ss. [NthOf 0 1, NthOf 1 2, NthOf 0 1] = ROOT_TREE_PATH @ ss \<and> descend ?f ss = Some ?b"
    by (intro exI [of _ "[NthOf 1 2, NthOf 0 1]"]) (simp add: ROOT_TREE_PATH_def)
  with t have mem: "([NthOf 0 1, NthOf 1 2, NthOf 0 1], ?b) \<in> set (tree_walk ?f ROOT_TREE_PATH)"
    by blast
  from t pre mem show ?thesis by simp
qed

subsection \<open>Quantifiers on the empty sequence, attributes and positions\<close>

text \<open>
  Claim C7. On an empty sequence the check of \<^verbatim>\<open>all\<close> returns true and the check of
  \<^verbatim>\<open>any\<close> returns false, for a list and for an iterator. The check of \<^verbatim>\<open>first\<close>
  returns false on an empty iterator, and raises \<^verbatim>\<open>TypeError\<close> on an empty list.
\<close>

theorem check_on_empty_sequence:
  "check ''all'' (PyList []) p = Inr True \<and> check ''all'' (PyIterator []) p = Inr True
   \<and> check ''any'' (PyList []) p = Inr False \<and> check ''any'' (PyIterator []) p = Inr False
   \<and> check ''first'' (PyIterator []) p = Inr False
   \<and> check ''first'' (PyList []) p = Inl TypeError"
  by (simp add: check_def)

text \<open>
  Claim C8. \<^verbatim>\<open>obj_get_attr\<close> resolves an attribute name in three tiers, in this order:
  the reserved names \<^verbatim>\<open>role\<close>, \<^verbatim>\<open>name\<close> and \<^verbatim>\<open>text\<close>, whatever other attributes the
  object has; then an attribute of that name; then, when there is no such attribute,
  an attribute \<^verbatim>\<open>get_<name>\<close> called with no argument. When none applies the function
  returns, and does not raise, an \<^verbatim>\<open>AttributeError\<close> object whose message is the
  display form \<^verbatim>\<open>role('name')\<close> of the object followed by the missing attribute.
\<close>

theorem obj_get_attr_three_tiers:
  "obj_get_attr obj ''role'' = Inr (PStr (get_role_name obj))
   \<and> obj_get_attr obj ''name'' = Inr (PStr (case get_name obj of None \<Rightarrow> [] | Some s \<Rightarrow> s))
   \<and> obj_get_attr obj ''text'' = Inr (get_text obj)
   \<and> (name \<notin> {''role'', ''name'', ''text''} \<and> map_of (py_attrs obj) name = Some v
        \<longrightarrow> obj_get_attr obj name = Inr v)
   \<and> (name \<notin> {''role'', ''name'', ''text''} \<and> map_of (py_attrs obj) name = None
        \<and> map_of (py_attrs obj) (''get_'' @ name) = Some g
        \<longrightarrow> obj_get_attr obj name = call0 g)
   \<and> (name \<notin> {''role'', ''name'', ''text''} \<and> map_of (py_attrs obj) name = None
        \<and> map_of (py_attrs obj) (''get_'' @ name) = None
        \<longrightarrow> obj_get_attr obj name =
            Inr (PExc (AttributeError
              (get_role_name obj @ ''('' @ [CHR 0x27]
                 @ (case get_name obj of None \<Rightarrow> [] | Some s \<Rightarrow> s)
                 @ [CHR 0x27] @ '')'' @ '' has no attribute '' @ name))))"
  by (simp add: obj_get_attr_def hasattr_def getattr_def pprint_def name_or_empty_def)

theorem obj_get_attr_three_tiers_witness:
  "obj_get_attr (Node ''push button'' None PNone
       [(''id'', PInt 7), (''get_id'', PCallable (Inr (PInt 8))),
        (''get_toolkit_name'', PCallable (Inr (PStr ''gtk'')))] [] []) ''id'' = Inr (PInt 7)
   \<and> obj_get_attr (Node ''push button'' None PNone
       [(''id'', PInt 7), (''get_id'', PCallable (Inr (PInt 8))),
        (''get_toolkit_name'', PCallable (Inr (PStr ''gtk'')))] [] []) ''toolkit_name'' = Inr (PStr ''gtk'')
   \<and> obj_get_attr (Node ''push button'' None PNone
       [(''id'', PInt 7), (''get_id'', PCallable (Inr (PInt 8))),
        (''get_toolkit_name'', PCallable (Inr (PStr ''gtk'')))] [] []) ''colour''
     = Inr (PExc (AttributeError (''push button('' @ [CHR 0x27, CHR 0x27] @ '') has no attribute colour'')))"
proof -
  let ?obj = "Node ''push button'' None PNone
       [(''id'', PInt 7), (''get_id'', PCallable (Inr (PInt 8))),
        (''get_toolkit_name'', PCallable (Inr (PStr ''gtk'')))] [] []"
  have t2: "obj_get_attr ?obj ''id'' = Inr (PInt 7)"
    using obj_get_attr_three_tiers [of ?obj "''id''" "PInt 7"] by simp
  have t3: "obj_get_attr ?obj ''toolkit_name'' = Inr (PStr ''gtk'')"
    using obj_get_attr_three_tiers [of ?obj "''toolkit_name''" _ "PCallable (Inr (PStr ''gtk''))"]
    by simp
  have t4: "obj_get_attr ?obj ''colour''
     = Inr (PExc (AttributeError (''push button('' @ [CHR 0x27, CHR 0x27] @ '') has no attribute colour'')))"
    using obj_get_attr_three_tiers [of ?obj "''colour''"] by simp
  from t2 t3 t4 show ?thesis by simp
qed

text \<open>
  Claim C9. For a node whose path ends in a segment with sibling count \<open>n \<ge> 1\<close>, the
  condition \<^verbatim>\<open>nth = -1\<close> gives the same result as the condition \<^verbatim>\<open>nth = n - 1\<close>, and
  both hold exactly when the sibling index of the segment is \<open>n - 1\<close>; in general a
  negative value \<open>k\<close> is compared as \<open>n + k\<close>.
\<close>

theorem nth_minus_one_is_last:
  assumes "path \<noteq> []" and "nth_n (last path) = n" and "n \<ge> 1"
  shows "match obj path ''nth'' (VInt (- 1)) = match obj path ''nth'' (VInt (n - 1))
       \<and> match obj path ''nth'' (VInt (- 1)) = Inr (nth_i (last path) = n - 1)
       \<and> (k < 0 \<longrightarrow> match obj path ''nth'' (VInt k) = Inr (n + k = nth_i (last path)))"
  using assms by (auto simp: match_def Let_def)

theorem nth_minus_one_is_last_witness:
  "[NthOf 0 1, NthOf 2 3] \<noteq> [] \<and> nth_n (last [NthOf 0 1, NthOf 2 3]) = 3 \<and> (3::int) \<ge> 1
   \<and> match (Node ''label'' None PNone [] [] []) [NthOf 0 1, NthOf 2 3] ''nth'' (VInt (- 1)) = Inr True
   \<and> match (Node ''label'' None PNone [] [] []) [NthOf 0 1, NthOf 2 3] ''nth'' (VInt (3 - 1)) = Inr True
   \<and> match (Node ''label'' None PNone [] [] []) [NthOf 0 1, NthOf 2 3] ''nth'' (VInt (- 2)) = Inr False"
  using nth_minus_one_is_last [of "[NthOf 0 1, NthOf 2 3]" 3 "Node ''label'' None PNone [] [] []" "- 2"]
  by (simp add: match_def)



end
